theory Spec2Isabelle
  imports Complex_Main
begin

section \<open>Numbers\<close>

text \<open>
  The planner of \<^verbatim>\<open>services/optimizer_v2.py\<close> computes with Python floats. They are
  modelled as exact rationals; the one non-finite value the code uses,
  \<^verbatim>\<open>float('inf')\<close> in the table \<^verbatim>\<open>dp\<close>, is a constructor of its own.
\<close>

datatype cost = Finite rat | Infinite

text \<open>\<^verbatim>\<open>dp[j] + refuel_cost\<close>: adding a finite float to an entry of the table.\<close>

fun cost_add :: "cost \<Rightarrow> rat \<Rightarrow> cost" where
  "cost_add (Finite a) b = Finite (a + b)"
| "cost_add Infinite b = Infinite"

text \<open>\<^verbatim>\<open>candidate_cost < dp[i]\<close>.\<close>

fun cost_less :: "cost \<Rightarrow> cost \<Rightarrow> bool" where
  "cost_less (Finite a) (Finite b) = (a < b)"
| "cost_less (Finite a) Infinite = True"
| "cost_less Infinite c = False"

text \<open>Python's \<^verbatim>\<open>round\<close> rounds a tie to the even neighbour.\<close>

definition round_half_even :: "rat \<Rightarrow> int" where
  "round_half_even x =
     (let f = \<lfloor>x\<rfloor>; d = x - of_int f
      in if d < 1 / 2 then f
         else if 1 / 2 < d then f + 1
         else if even f then f else f + 1)"

text \<open>\<^verbatim>\<open>round(x, ndigits)\<close>.\<close>

definition py_round :: "rat \<Rightarrow> nat \<Rightarrow> rat" where
  "py_round x ndigits = of_int (round_half_even (x * 10 ^ ndigits)) / 10 ^ ndigits"

section \<open>Data model\<close>

definition VEHICLE_RANGE_MILES :: rat where
  "VEHICLE_RANGE_MILES = 500"

definition FUEL_EFFICIENCY_MPG :: rat where
  "FUEL_EFFICIENCY_MPG = 10"

text \<open>The fields of \<^verbatim>\<open>models.FuelStation\<close> that the planner reads.\<close>

record FuelStation =
  truckstop_name :: string
  address :: string
  city :: string
  state :: string
  latitude :: rat
  longitude :: rat
  retail_price :: rat

text \<open>The dataclass \<^verbatim>\<open>OptimizedFuelStop\<close>.\<close>

record OptimizedFuelStop =
  name :: string
  address :: string
  city :: string
  state :: string
  latitude :: rat
  longitude :: rat
  price_per_gallon :: rat
  gallons_needed :: rat
  cost :: rat
  miles_from_start :: rat

text \<open>
  The dataclass \<^verbatim>\<open>routing.RouteResult\<close>; the GeoJSON geometry and the coordinate list are
  only passed on, so the geometry is kept as an opaque string.
\<close>

record RouteResult =
  distance_miles :: rat
  duration_hours :: rat
  geometry :: string
  start_coords :: "rat \<times> rat"
  end_coords :: "rat \<times> rat"

text \<open>The dictionary under the key \<^verbatim>\<open>route\<close> of the result.\<close>

record route_dict =
  rd_distance_miles :: rat
  rd_duration_hours :: rat
  rd_geometry :: string

text \<open>The dictionaries \<^verbatim>\<open>start_location\<close> and \<^verbatim>\<open>end_location\<close>.\<close>

record location_dict =
  loc_address :: string
  loc_latitude :: rat
  loc_longitude :: rat

text \<open>The dataclass \<^verbatim>\<open>OptimizedRouteResult\<close>.\<close>

record OptimizedRouteResult =
  route :: route_dict
  fuel_stops :: "OptimizedFuelStop list"
  total_fuel_cost :: rat
  total_gallons :: rat
  start_location :: location_dict
  end_location :: location_dict
  optimization_method :: string
  stations_considered :: nat

datatype error = ValueError string

text \<open>An on-route station is the pair \<^verbatim>\<open>(station, chainage)\<close>.\<close>

type_synonym on_route = "FuelStation \<times> rat"

section \<open>Building a stop\<close>

text \<open>
  Both \<^verbatim>\<open>_find_optimal_stops_dp\<close> and \<^verbatim>\<open>_greedy_fallback\<close> build a stop with the same
  expression: a full tank \<^verbatim>\<open>VEHICLE_RANGE_MILES / FUEL_EFFICIENCY_MPG\<close> at the station's
  price, every number rounded for the output.
\<close>

definition make_stop :: "on_route \<Rightarrow> OptimizedFuelStop" where
  "make_stop sc =
     (let station = fst sc; chainage = snd sc;
          gallons = VEHICLE_RANGE_MILES / FUEL_EFFICIENCY_MPG;
          cost = gallons * retail_price station
      in \<lparr> name = truckstop_name station,
           address = FuelStation.address station,
           city = FuelStation.city station,
           state = FuelStation.state station,
           latitude = FuelStation.latitude station,
           longitude = FuelStation.longitude station,
           price_per_gallon = py_round (retail_price station) 3,
           gallons_needed = py_round gallons 2,
           cost = py_round cost 2,
           miles_from_start = py_round chainage 2 \<rparr>)"

section \<open>The greedy fallback\<close>

text \<open>
  \<^verbatim>\<open>_greedy_fallback\<close>: one pass over the stations; the loop state is the list of stops,
  \<^verbatim>\<open>current_range\<close> and \<^verbatim>\<open>prev_chainage\<close>. The route distance is not read.
\<close>

fun greedy_loop ::
  "on_route list \<Rightarrow> OptimizedFuelStop list \<times> rat \<times> rat \<Rightarrow> OptimizedFuelStop list" where
  "greedy_loop [] (stops, current_range, prev_chainage) = stops"
| "greedy_loop (sc # rest) (stops, current_range, prev_chainage) =
     (let distance_from_prev = snd sc - prev_chainage
      in if distance_from_prev \<ge> current_range - 50
         then greedy_loop rest (stops @ [make_stop sc], VEHICLE_RANGE_MILES, snd sc)
         else greedy_loop rest (stops, current_range, prev_chainage))"

definition greedy_fallback :: "rat \<Rightarrow> on_route list \<Rightarrow> OptimizedFuelStop list" where
  "greedy_fallback route_distance on_route_stations =
     greedy_loop on_route_stations ([], VEHICLE_RANGE_MILES, 0)"

section \<open>The dynamic program\<close>

text \<open>
  Node \<open>0\<close> is the virtual start, node \<open>i\<close> with \<open>1 \<le> i \<le> n\<close> is station \<open>i - 1\<close> and
  node \<open>n + 1\<close> is the virtual end.
\<close>

definition START_IDX :: nat where
  "START_IDX = 0"

definition END_IDX :: "on_route list \<Rightarrow> nat" where
  "END_IDX on_route_stations = length on_route_stations + 1"

text \<open>The body of the inner loop, for one pair \<open>i\<close>, \<open>j\<close>, on the arrays \<^verbatim>\<open>dp\<close> and \<^verbatim>\<open>parent\<close>.\<close>

definition relax ::
  "rat \<Rightarrow> on_route list \<Rightarrow> nat \<Rightarrow> nat \<Rightarrow> cost list \<times> int list \<Rightarrow> cost list \<times> int list" where
  "relax route_distance on_route_stations i j st =
     (let dp = fst st; parent = snd st;
          current_chainage =
            (if i = END_IDX on_route_stations then route_distance
             else snd (on_route_stations ! (i - 1)));
          prev_chainage =
            (if j = START_IDX then 0 else snd (on_route_stations ! (j - 1)));
          distance_between = current_chainage - prev_chainage
      in if distance_between > VEHICLE_RANGE_MILES then (dp, parent)
         else
           let refuel_cost =
                 (if i = END_IDX on_route_stations then 0
                  else (VEHICLE_RANGE_MILES / FUEL_EFFICIENCY_MPG)
                         * retail_price (fst (on_route_stations ! (i - 1))));
               candidate_cost = cost_add (dp ! j) refuel_cost
           in if cost_less candidate_cost (dp ! i)
              then (dp[i := candidate_cost], parent[i := int j])
              else (dp, parent))"

text \<open>The two nested loops, started on the initial arrays.\<close>

definition dp_table :: "rat \<Rightarrow> on_route list \<Rightarrow> cost list \<times> int list" where
  "dp_table route_distance on_route_stations =
     (let n = length on_route_stations
      in fold (\<lambda>i. fold (relax route_distance on_route_stations i) [0..<i])
           [1..<n + 2]
           ((replicate (n + 2) Infinite)[START_IDX := Finite 0], replicate (n + 2) (- 1)))"

text \<open>
  The \<^verbatim>\<open>while parent[current] != -1\<close> loop. Nothing in the loop itself bounds it, so it is
  a partial function: \<open>None\<close> stands for a loop that does not end.
\<close>

partial_function (option) backtrack ::
  "int list \<Rightarrow> nat \<Rightarrow> nat \<Rightarrow> nat list \<Rightarrow> nat list option" where
  "backtrack parent end_idx current path_indices =
     (if parent ! current \<noteq> - 1
      then let prev = nat (parent ! current)
           in backtrack parent end_idx prev
                (if prev \<noteq> START_IDX \<and> prev \<noteq> end_idx
                 then path_indices @ [prev - 1] else path_indices)
      else Some path_indices)"

declare backtrack.simps [code]

text \<open>The local \<^verbatim>\<open>path_indices\<close> after \<^verbatim>\<open>path_indices.reverse()\<close>.\<close>

definition path_indices :: "rat \<Rightarrow> on_route list \<Rightarrow> nat list option" where
  "path_indices route_distance on_route_stations =
     map_option rev
       (backtrack (snd (dp_table route_distance on_route_stations))
          (END_IDX on_route_stations) (END_IDX on_route_stations) [])"

text \<open>
  \<^verbatim>\<open>_find_optimal_stops_dp\<close>. The last loop builds one stop per index; its running
  \<^verbatim>\<open>prev_chainage\<close> feeds only two locals that are never used, so the loop is a \<open>map\<close>.
\<close>

definition find_optimal_stops_dp :: "rat \<Rightarrow> on_route list \<Rightarrow> OptimizedFuelStop list option" where
  "find_optimal_stops_dp route_distance on_route_stations =
     (if on_route_stations = [] then Some []
      else if fst (dp_table route_distance on_route_stations) ! END_IDX on_route_stations = Infinite
      then Some (greedy_fallback route_distance on_route_stations)
      else map_option (map (\<lambda>idx. make_stop (on_route_stations ! idx)))
             (path_indices route_distance on_route_stations))"

section \<open>The entry point\<close>

definition create_empty_result ::
  "RouteResult \<Rightarrow> string \<Rightarrow> string \<Rightarrow> string \<Rightarrow> nat \<Rightarrow> OptimizedRouteResult" where
  "create_empty_result rt start_address end_address method considered =
     (let total_gallons = distance_miles rt / FUEL_EFFICIENCY_MPG
      in \<lparr> route = \<lparr> rd_distance_miles = distance_miles rt,
                     rd_duration_hours = duration_hours rt,
                     rd_geometry = geometry rt \<rparr>,
           fuel_stops = [],
           total_fuel_cost = 0,
           total_gallons = py_round total_gallons 2,
           start_location = \<lparr> loc_address = start_address,
                              loc_latitude = fst (start_coords rt),
                              loc_longitude = snd (start_coords rt) \<rparr>,
           end_location = \<lparr> loc_address = end_address,
                            loc_latitude = fst (end_coords rt),
                            loc_longitude = snd (end_coords rt) \<rparr>,
           optimization_method = method,
           stations_considered = considered \<rparr>)"

text \<open>
  \<^verbatim>\<open>optimize_route\<close>. The routing service and the corridor filter
  (\<^verbatim>\<open>services/geometry.py\<close>, \<^verbatim>\<open>find_stations_along_route\<close>) are outside the planner: the
  route they return (\<open>None\<close> when routing fails) and the list of on-route stations are
  parameters. The outer \<open>option\<close> is the one of \<open>backtrack\<close>.
\<close>

definition optimize_route ::
  "RouteResult option \<Rightarrow> on_route list \<Rightarrow> string \<Rightarrow> string
     \<Rightarrow> (error + OptimizedRouteResult) option" where
  "optimize_route route_opt on_route_stations start_address end_address =
     (case route_opt of
        None \<Rightarrow> Some (Inl (ValueError ''Could not calculate route''))
      | Some rt \<Rightarrow>
          if on_route_stations = []
          then Some (Inr (create_empty_result rt start_address end_address ''no_stations'' 0))
          else
            (case find_optimal_stops_dp (distance_miles rt) on_route_stations of
               None \<Rightarrow> None
             | Some optimal_stops \<Rightarrow>
                 let total_gallons = distance_miles rt / FUEL_EFFICIENCY_MPG;
                     total_cost = sum_list (map cost optimal_stops)
                 in Some (Inr
                      \<lparr> route = \<lparr> rd_distance_miles = distance_miles rt,
                                  rd_duration_hours = duration_hours rt,
                                  rd_geometry = geometry rt \<rparr>,
                        fuel_stops = optimal_stops,
                        total_fuel_cost = py_round total_cost 2,
                        total_gallons = py_round total_gallons 2,
                        start_location = \<lparr> loc_address = start_address,
                                           loc_latitude = fst (start_coords rt),
                                           loc_longitude = snd (start_coords rt) \<rparr>,
                        end_location = \<lparr> loc_address = end_address,
                                         loc_latitude = fst (end_coords rt),
                                         loc_longitude = snd (end_coords rt) \<rparr>,
                        optimization_method = ''dynamic_programming'',
                        stations_considered = length on_route_stations \<rparr>)))"

section \<open>Notions used to state and prove the properties\<close>

subsection \<open>Plans as index lists\<close>

text \<open>
  A plan is the list of indices (into \<^verbatim>\<open>on_route_stations\<close>) of the stations it stops at,
  in travel order. Its positions are the start, the chainages of its stations and the
  destination.
\<close>

definition positions :: "rat \<Rightarrow> on_route list \<Rightarrow> nat list \<Rightarrow> rat list" where
  "positions route_distance on_route_stations idxs =
     0 # map (\<lambda>i. snd (on_route_stations ! i)) idxs @ [route_distance]"

text \<open>Every leg between consecutive positions is within the vehicle range.\<close>

definition range_respected :: "rat \<Rightarrow> on_route list \<Rightarrow> nat list \<Rightarrow> bool" where
  "range_respected route_distance on_route_stations idxs =
     successively (\<lambda>a b. b - a \<le> VEHICLE_RANGE_MILES)
       (positions route_distance on_route_stations idxs)"

text \<open>The full-tank cost model: every stop pays a full tank at the station's price.\<close>

definition plan_cost :: "on_route list \<Rightarrow> nat list \<Rightarrow> rat" where
  "plan_cost on_route_stations idxs =
     sum_list (map (\<lambda>i. (VEHICLE_RANGE_MILES / FUEL_EFFICIENCY_MPG)
                           * retail_price (fst (on_route_stations ! i))) idxs)"

text \<open>
  The stations at which the loop of \<^verbatim>\<open>_greedy_fallback\<close> stops: the same pass as
  \<open>greedy_loop\<close>, keeping the station instead of the stop built from it.
\<close>

fun greedy_choice :: "on_route list \<Rightarrow> rat \<Rightarrow> rat \<Rightarrow> on_route list" where
  "greedy_choice [] current_range prev_chainage = []"
| "greedy_choice (sc # rest) current_range prev_chainage =
     (if snd sc - prev_chainage \<ge> current_range - 50
      then sc # greedy_choice rest VEHICLE_RANGE_MILES (snd sc)
      else greedy_choice rest current_range prev_chainage)"

subsection \<open>The graph behind the table\<close>

text \<open>The locals of the inner loop body, as functions of the node indices.\<close>

definition cur_chainage :: "rat \<Rightarrow> on_route list \<Rightarrow> nat \<Rightarrow> rat" where
  "cur_chainage D sts i = (if i = END_IDX sts then D else snd (sts ! (i - 1)))"

definition prev_chainage :: "on_route list \<Rightarrow> nat \<Rightarrow> rat" where
  "prev_chainage sts j = (if j = START_IDX then 0 else snd (sts ! (j - 1)))"

definition reachable :: "rat \<Rightarrow> on_route list \<Rightarrow> nat \<Rightarrow> nat \<Rightarrow> bool" where
  "reachable D sts j i \<longleftrightarrow> \<not> cur_chainage D sts i - prev_chainage sts j > VEHICLE_RANGE_MILES"

definition refuel_cost :: "on_route list \<Rightarrow> nat \<Rightarrow> rat" where
  "refuel_cost sts i =
     (if i = END_IDX sts then 0
      else (VEHICLE_RANGE_MILES / FUEL_EFFICIENCY_MPG) * retail_price (fst (sts ! (i - 1))))"

text \<open>
  What the inner loop has established for row \<open>i\<close> once it has tried the predecessors
  below \<open>t\<close>: the entry \<open>c\<close> and the parent \<open>p\<close> are those of the first cheapest reachable
  predecessor, or still the initial ones when no predecessor below \<open>t\<close> is reachable at
  finite cost.
\<close>

definition row_done :: "rat \<Rightarrow> on_route list \<Rightarrow> cost list \<Rightarrow> nat \<Rightarrow> nat \<Rightarrow> cost \<Rightarrow> int \<Rightarrow> bool" where
  "row_done D sts dp i t c p \<longleftrightarrow>
     (if p = - 1
      then c = Infinite \<and> (\<forall>j<t. reachable D sts j i \<longrightarrow> dp ! j = Infinite)
      else \<exists>j<t. p = int j \<and> reachable D sts j i
             \<and> (\<exists>a. dp ! j = Finite a \<and> c = Finite (a + refuel_cost sts i))
             \<and> (\<forall>j'<t. reachable D sts j' i \<longrightarrow>
                    \<not> cost_less (cost_add (dp ! j') (refuel_cost sts i)) c)
             \<and> (\<forall>j'<j. reachable D sts j' i \<longrightarrow>
                    cost_less c (cost_add (dp ! j') (refuel_cost sts i))))"

text \<open>The invariant of the outer loop: the rows below \<open>m\<close> are done, the others untouched.\<close>

definition table_ok :: "rat \<Rightarrow> on_route list \<Rightarrow> nat \<Rightarrow> cost list \<times> int list \<Rightarrow> bool" where
  "table_ok D sts m st \<longleftrightarrow>
     length (fst st) = length sts + 2 \<and> length (snd st) = length sts + 2
     \<and> fst st ! 0 = Finite 0 \<and> snd st ! 0 = - 1
     \<and> (\<forall>k. m \<le> k \<and> k < length sts + 2 \<longrightarrow> fst st ! k = Infinite \<and> snd st ! k = - 1)
     \<and> (\<forall>k. 1 \<le> k \<and> k < m \<longrightarrow> row_done D sts (fst st) k k (fst st ! k) (snd st ! k))"

abbreviation dp_of :: "rat \<Rightarrow> on_route list \<Rightarrow> cost list" where
  "dp_of D sts \<equiv> fst (dp_table D sts)"

abbreviation parent_of :: "rat \<Rightarrow> on_route list \<Rightarrow> int list" where
  "parent_of D sts \<equiv> snd (dp_table D sts)"

text \<open>
  The nodes that backtracking from node \<open>k\<close> visits before it reaches the start: each is
  the parent of the one before it, and the parent of the last one is the start.
\<close>

fun is_chain :: "int list \<Rightarrow> nat \<Rightarrow> nat list \<Rightarrow> bool" where
  "is_chain parent k [] \<longleftrightarrow> parent ! k = 0"
| "is_chain parent k (p # ps) \<longleftrightarrow> parent ! k = int p \<and> 0 < p \<and> p < k \<and> is_chain parent p ps"

subsection \<open>Concrete inputs\<close>

definition example_station :: "string \<Rightarrow> rat \<Rightarrow> FuelStation" where
  "example_station nm p =
     \<lparr> truckstop_name = nm, address = ''1 Main St'', city = ''Springfield'', state = ''IL'',
       latitude = 0, longitude = 0, retail_price = p \<rparr>"

definition example_route :: "rat \<Rightarrow> RouteResult" where
  "example_route d =
     \<lparr> distance_miles = d, duration_hours = 0, geometry = ''LineString'',
       start_coords = (0, 0), end_coords = (0, 0) \<rparr>"

section \<open>The table computed by the two loops\<close>

subsection \<open>Comparing entries\<close>

lemma cost_less_irrefl: "\<not> cost_less a a"
  by (cases a) simp_all

lemma cost_less_asym: "cost_less a b \<Longrightarrow> \<not> cost_less b a"
  by (cases a; cases b) simp_all

lemma cost_less_below: "cost_less a c \<Longrightarrow> \<not> cost_less b c \<Longrightarrow> cost_less a b"
  by (cases a; cases b; cases c) simp_all

lemma cost_less_Infinite: "\<not> cost_less a Infinite \<longleftrightarrow> a = Infinite"
  by (cases a) simp_all

lemma cost_add_Infinite: "cost_add a w = Infinite \<longleftrightarrow> a = Infinite"
  by (cases a) simp_all

lemma cost_less_Finite: "cost_less a b \<Longrightarrow> \<exists>x. a = Finite x"
  by (cases a) simp_all

subsection \<open>One row: the inner loop\<close>

lemma relax_eq:
  "relax D sts i j (dp, parent) =
     (if reachable D sts j i \<and> cost_less (cost_add (dp ! j) (refuel_cost sts i)) (dp ! i)
      then (dp[i := cost_add (dp ! j) (refuel_cost sts i)], parent[i := int j])
      else (dp, parent))"
  by (simp add: relax_def Let_def reachable_def cur_chainage_def prev_chainage_def refuel_cost_def)

lemma row_step_update:
  assumes "row_done D sts dp i t c p" and "reachable D sts t i"
    and "cost_less (cost_add (dp ! t) (refuel_cost sts i)) c"
  shows "row_done D sts dp i (Suc t) (cost_add (dp ! t) (refuel_cost sts i)) (int t)"
proof -
  let ?w = "refuel_cost sts i"
  obtain a where a: "dp ! t = Finite a"
    using assms(3) by (cases "dp ! t") simp_all
  have others: "\<not> cost_less (cost_add (dp ! j') ?w) c" if "j' < t" "reachable D sts j' i" for j'
    using assms(1) that by (auto simp: row_done_def cost_add_Infinite split: if_splits)
  have before: "cost_less (cost_add (dp ! t) ?w) (cost_add (dp ! j') ?w)"
    if "j' < t" "reachable D sts j' i" for j'
    using cost_less_below [OF assms(3) others [OF that]] .
  have upto: "\<not> cost_less (cost_add (dp ! j') ?w) (cost_add (dp ! t) ?w)"
    if "j' < Suc t" "reachable D sts j' i" for j'
  proof (cases "j' = t")
    case True
    then show ?thesis by (simp add: cost_less_irrefl)
  next
    case False
    with that have "j' < t" by simp
    from before [OF this that(2)] show ?thesis by (rule cost_less_asym)
  qed
  show ?thesis
    unfolding row_done_def using a assms(2) before upto by auto
qed

lemma row_step_keep:
  assumes "row_done D sts dp i t c p"
    and "\<not> (reachable D sts t i \<and> cost_less (cost_add (dp ! t) (refuel_cost sts i)) c)"
  shows "row_done D sts dp i (Suc t) c p"
proof (cases "p = - 1")
  case True
  with assms show ?thesis
    by (auto simp: row_done_def less_Suc_eq cost_less_Infinite cost_add_Infinite)
next
  case False
  with assms show ?thesis
    by (auto simp: row_done_def less_Suc_eq)
qed

lemma inner_loop:
  assumes "t \<le> i" and "i < length dp" and "length parent = length dp"
    and "dp ! i = Infinite" and "parent ! i = - 1"
  shows "\<exists>c p. fold (relax D sts i) [0..<t] (dp, parent) = (dp[i := c], parent[i := p])
           \<and> row_done D sts dp i t c p"
  using assms(1)
proof (induction t)
  case 0
  have "fold (relax D sts i) [0..<0] (dp, parent) = (dp[i := dp ! i], parent[i := parent ! i])"
    by simp
  moreover have "row_done D sts dp i 0 (dp ! i) (parent ! i)"
    using assms(4,5) by (simp add: row_done_def)
  ultimately show ?case by blast
next
  case (Suc t)
  then obtain c p where st: "fold (relax D sts i) [0..<t] (dp, parent) = (dp[i := c], parent[i := p])"
    and row: "row_done D sts dp i t c p"
    by auto
  from Suc.prems have ti: "t < i" by simp
  have nth_t: "dp[i := c] ! t = dp ! t" and nth_i: "dp[i := c] ! i = c"
    using ti assms(2) by simp_all
  let ?cand = "cost_add (dp ! t) (refuel_cost sts i)"
  show ?case
  proof (cases "reachable D sts t i \<and> cost_less ?cand c")
    case True
    then have "fold (relax D sts i) [0..<Suc t] (dp, parent) = (dp[i := ?cand], parent[i := int t])"
      by (simp add: st relax_eq nth_t nth_i)
    moreover have "row_done D sts dp i (Suc t) ?cand (int t)"
      using row True by (simp add: row_step_update)
    ultimately show ?thesis by blast
  next
    case False
    then have "fold (relax D sts i) [0..<Suc t] (dp, parent) = (dp[i := c], parent[i := p])"
      using st by (auto simp: relax_eq nth_t nth_i)
    moreover have "row_done D sts dp i (Suc t) c p"
      using row False by (rule row_step_keep)
    ultimately show ?thesis by blast
  qed
qed

subsection \<open>All rows: the outer loop\<close>

lemma row_done_cong:
  assumes "row_done D sts dp i t c p" and "\<And>j. j < t \<Longrightarrow> dp' ! j = dp ! j"
  shows "row_done D sts dp' i t c p"
proof (cases "p = - 1")
  case True
  with assms show ?thesis by (simp add: row_done_def)
next
  case False
  with assms(1) obtain j a where j: "j < t" "p = int j" "reachable D sts j i"
      "dp ! j = Finite a" "c = Finite (a + refuel_cost sts i)"
    and le: "\<And>j'. j' < t \<Longrightarrow> reachable D sts j' i \<Longrightarrow>
               \<not> cost_less (cost_add (dp ! j') (refuel_cost sts i)) c"
    and lt: "\<And>j'. j' < j \<Longrightarrow> reachable D sts j' i \<Longrightarrow>
               cost_less c (cost_add (dp ! j') (refuel_cost sts i))"
    by (auto simp: row_done_def)
  have "dp' ! j = Finite a" using j assms(2) by simp
  moreover have "\<not> cost_less (cost_add (dp' ! j') (refuel_cost sts i)) c"
    if "j' < t" "reachable D sts j' i" for j'
    using le [OF that] assms(2) [OF that(1)] by simp
  moreover have "cost_less c (cost_add (dp' ! j') (refuel_cost sts i))"
    if "j' < j" "reachable D sts j' i" for j'
  proof -
    from that j(1) have "j' < t" by simp
    with lt [OF that] assms(2) show ?thesis by simp
  qed
  ultimately show ?thesis
    unfolding row_done_def using False j by auto
qed

lemma table_step:
  assumes ok': "table_ok D sts m st" and m: "1 \<le> m" "m < length sts + 2"
  shows "table_ok D sts (Suc m) (fold (relax D sts m) [0..<m] st)"
proof -
  obtain dp parent where [simp]: "st = (dp, parent)"
    by (cases st)
  from ok' have ok: "table_ok D sts m (dp, parent)"
    by simp
  from ok m have len: "m < length dp" "length parent = length dp"
    and fresh: "dp ! m = Infinite" "parent ! m = - 1"
    by (auto simp: table_ok_def)
  from inner_loop [OF le_refl len fresh, of D sts]
  obtain c p where st: "fold (relax D sts m) [0..<m] (dp, parent) = (dp[m := c], parent[m := p])"
    and row: "row_done D sts dp m m c p"
    by blast
  have rows: "row_done D sts (dp[m := c]) k k (dp[m := c] ! k) (parent[m := p] ! k)"
    if k: "1 \<le> k" "k < Suc m" for k
  proof (cases "k = m")
    case True
    have "row_done D sts (dp[m := c]) m m c p"
      using row by (rule row_done_cong) simp
    with True len show ?thesis by simp
  next
    case False
    with k have km: "k < m" by simp
    with ok k have "row_done D sts dp k k (dp ! k) (parent ! k)"
      by (simp add: table_ok_def)
    then have "row_done D sts (dp[m := c]) k k (dp ! k) (parent ! k)"
      by (rule row_done_cong) (use km in simp)
    with km show ?thesis by simp
  qed
  have "length (dp[m := c]) = length sts + 2" "length (parent[m := p]) = length sts + 2"
    "dp[m := c] ! 0 = Finite 0" "parent[m := p] ! 0 = - 1"
    using ok m by (auto simp: table_ok_def)
  moreover have "dp[m := c] ! k = Infinite \<and> parent[m := p] ! k = - 1"
    if "Suc m \<le> k" "k < length sts + 2" for k
    using ok that by (auto simp: table_ok_def)
  ultimately show ?thesis
    using rows by (simp add: st table_ok_def)
qed

lemma table_init:
  "table_ok D sts 1
     ((replicate (length sts + 2) Infinite)[START_IDX := Finite 0], replicate (length sts + 2) (- 1))"
  by (auto simp: table_ok_def START_IDX_def nth_Cons split: nat.splits)

lemma table_loop:
  assumes "1 \<le> m" "m \<le> length sts + 2"
  shows "table_ok D sts m
           (fold (\<lambda>i. fold (relax D sts i) [0..<i]) [1..<m]
              ((replicate (length sts + 2) Infinite)[START_IDX := Finite 0],
               replicate (length sts + 2) (- 1)))"
  using assms
proof (induction m)
  case 0
  then show ?case by simp
next
  case (Suc m)
  show ?case
  proof (cases "m = 0")
    case True
    then show ?thesis using table_init [of D sts] by simp
  next
    case False
    with Suc have ok: "table_ok D sts m
           (fold (\<lambda>i. fold (relax D sts i) [0..<i]) [1..<m]
              ((replicate (length sts + 2) Infinite)[START_IDX := Finite 0],
               replicate (length sts + 2) (- 1)))"
      by simp
    have "table_ok D sts (Suc m) (fold (relax D sts m) [0..<m]
           (fold (\<lambda>i. fold (relax D sts i) [0..<i]) [1..<m]
              ((replicate (length sts + 2) Infinite)[START_IDX := Finite 0],
               replicate (length sts + 2) (- 1))))"
      using ok by (rule table_step) (use False Suc.prems in simp_all)
    moreover have "[1..<Suc m] = [1..<m] @ [m]"
      using False by simp
    ultimately show ?thesis by simp
  qed
qed

lemma dp_table_ok: "table_ok D sts (length sts + 2) (dp_table D sts)"
  unfolding dp_table_def Let_def by (rule table_loop) simp_all

subsection \<open>The finished table\<close>

lemma table_start: "dp_of D sts ! 0 = Finite 0" "parent_of D sts ! 0 = - 1"
  using dp_table_ok [of D sts] by (simp_all add: table_ok_def)

lemma table_row:
  assumes "1 \<le> k" "k \<le> length sts + 1"
  shows "row_done D sts (dp_of D sts) k k (dp_of D sts ! k) (parent_of D sts ! k)"
  using dp_table_ok [of D sts] assms by (simp add: table_ok_def)

lemma table_finite:
  assumes "1 \<le> k" "k \<le> length sts + 1" "dp_of D sts ! k \<noteq> Infinite"
  shows "\<exists>j. parent_of D sts ! k = int j"
  using table_row [OF assms(1,2), of D] assms(3)
  by (auto simp: row_done_def split: if_splits)

lemma table_parent:
  assumes "1 \<le> k" "k \<le> length sts + 1" "parent_of D sts ! k = int j"
  shows "j < k \<and> reachable D sts j k
         \<and> (\<exists>a. dp_of D sts ! j = Finite a \<and> dp_of D sts ! k = Finite (a + refuel_cost sts k))"
  using table_row [OF assms(1,2), of D] assms(3)
  by (auto simp: row_done_def split: if_splits)

lemma table_first:
  assumes "1 \<le> k" "k \<le> length sts + 1" "parent_of D sts ! k = int j"
    and "j' < j" "reachable D sts j' k"
  shows "cost_less (dp_of D sts ! k) (cost_add (dp_of D sts ! j') (refuel_cost sts k))"
  using table_row [OF assms(1,2), of D] assms(3-)
  by (auto simp: row_done_def split: if_splits)

lemma table_min:
  assumes "1 \<le> k" "k \<le> length sts + 1" "j < k" "reachable D sts j k"
    and "dp_of D sts ! j = Finite a"
  shows "\<exists>c. dp_of D sts ! k = Finite c \<and> c \<le> a + refuel_cost sts k"
proof (cases "parent_of D sts ! k = - 1")
  case True
  with table_row [OF assms(1,2), of D] assms(3-) show ?thesis
    by (auto simp: row_done_def)
next
  case False
  with table_row [OF assms(1,2), of D]
  obtain c where c: "dp_of D sts ! k = Finite c"
    and "\<not> cost_less (cost_add (dp_of D sts ! j) (refuel_cost sts k)) (dp_of D sts ! k)"
    using assms(3,4) by (auto simp: row_done_def)
  with assms(5) show ?thesis by simp
qed

subsection \<open>Backtracking ends\<close>

lemma backtrack_chain:
  assumes "1 \<le> k" "k \<le> length sts + 1" "dp_of D sts ! k \<noteq> Infinite"
  shows "\<exists>ns. is_chain (parent_of D sts) k ns
           \<and> (\<forall>acc. backtrack (parent_of D sts) (END_IDX sts) k acc
                      = Some (acc @ map (\<lambda>v. v - 1) ns))"
  using assms
proof (induction k rule: less_induct)
  case (less k)
  from table_finite [OF less.prems] obtain j where j: "parent_of D sts ! k = int j"
    by blast
  from table_parent [OF less.prems(1,2) j] obtain a where jk: "j < k"
    and a: "dp_of D sts ! j = Finite a"
    by blast
  show ?case
  proof (cases "j = 0")
    case True
    have "backtrack (parent_of D sts) (END_IDX sts) k acc = Some (acc @ map (\<lambda>v. v - 1) [])" for acc
      using j True table_start(2) [of D sts]
      by (subst backtrack.simps, simp add: START_IDX_def, subst backtrack.simps, simp)
    moreover have "is_chain (parent_of D sts) k []"
      using j True by simp
    ultimately show ?thesis by blast
  next
    case False
    with jk less.prems(2) a have "1 \<le> j" "j \<le> length sts + 1" "dp_of D sts ! j \<noteq> Infinite"
      by simp_all
    from less.IH [OF jk this] obtain ns where ns: "is_chain (parent_of D sts) j ns"
      and bt: "\<And>acc. backtrack (parent_of D sts) (END_IDX sts) j acc
                 = Some (acc @ map (\<lambda>v. v - 1) ns)"
      by blast
    have jE: "j \<noteq> END_IDX sts"
      using jk less.prems(2) by (simp add: END_IDX_def)
    have "backtrack (parent_of D sts) (END_IDX sts) k acc
            = Some (acc @ map (\<lambda>v. v - 1) (j # ns))" for acc
      using j False jE
      by (subst backtrack.simps) (simp add: START_IDX_def bt)
    moreover have "is_chain (parent_of D sts) k (j # ns)"
      using j False jk ns by simp
    ultimately show ?thesis by blast
  qed
qed

lemma path_indices_chain:
  assumes "dp_of D sts ! END_IDX sts \<noteq> Infinite"
  shows "\<exists>ns. is_chain (parent_of D sts) (END_IDX sts) ns
           \<and> path_indices D sts = Some (rev (map (\<lambda>v. v - 1) ns))"
proof -
  have "1 \<le> END_IDX sts" "END_IDX sts \<le> length sts + 1"
    by (simp_all add: END_IDX_def)
  from backtrack_chain [OF this assms] obtain ns
    where "is_chain (parent_of D sts) (END_IDX sts) ns"
      and "backtrack (parent_of D sts) (END_IDX sts) (END_IDX sts) [] = Some ([] @ map (\<lambda>v. v - 1) ns)"
    by blast
  then show ?thesis by (auto simp: path_indices_def)
qed

lemma find_optimal_stops_dp_total: "\<exists>stops. find_optimal_stops_dp D sts = Some stops"
proof (cases "sts \<noteq> [] \<and> dp_of D sts ! END_IDX sts \<noteq> Infinite")
  case True
  with path_indices_chain [of D sts] show ?thesis
    by (auto simp: find_optimal_stops_dp_def)
next
  case False
  then show ?thesis by (auto simp: find_optimal_stops_dp_def)
qed

subsection \<open>Rounding, stops and the greedy pass\<close>

lemma round_half_even_cases: "round_half_even x = \<lfloor>x\<rfloor> \<or> round_half_even x = \<lfloor>x\<rfloor> + 1"
  by (simp add: round_half_even_def Let_def)

lemma round_half_even_mono:
  assumes "x \<le> y"
  shows "round_half_even x \<le> round_half_even y"
proof (cases "\<lfloor>x\<rfloor> = \<lfloor>y\<rfloor>")
  case True
  with assms show ?thesis
    by (auto simp: round_half_even_def Let_def)
next
  case False
  with assms have "\<lfloor>x\<rfloor> + 1 \<le> \<lfloor>y\<rfloor>"
    using floor_mono [OF assms] by linarith
  moreover have "round_half_even x \<le> \<lfloor>x\<rfloor> + 1" "\<lfloor>y\<rfloor> \<le> round_half_even y"
    using round_half_even_cases [of x] round_half_even_cases [of y] by auto
  ultimately show ?thesis by linarith
qed

lemma round_half_even_add_even:
  assumes "even k"
  shows "round_half_even (x + of_int k) = round_half_even x + k"
  using assms by (simp add: round_half_even_def Let_def)

lemma round_half_even_of_int: "round_half_even (of_int k) = k"
  by (simp add: round_half_even_def Let_def)

lemma py_round_mono: "x \<le> y \<Longrightarrow> py_round x n \<le> py_round y n"
  by (simp add: py_round_def round_half_even_mono divide_right_mono mult_right_mono)

lemma py_round_add_450: "py_round (x + 450) 2 = py_round x 2 + 450"
proof -
  have "(x + 450) * 10 ^ 2 = x * 10 ^ 2 + of_int 45000"
    by (simp add: algebra_simps)
  moreover have "round_half_even (x * 10 ^ 2 + of_int 45000) = round_half_even (x * 10 ^ 2) + 45000"
    by (rule round_half_even_add_even) simp
  ultimately have "round_half_even ((x + 450) * 10 ^ 2) = round_half_even (x * 10 ^ 2) + 45000"
    by simp
  then show ?thesis
    by (simp add: py_round_def add_divide_distrib)
qed

lemma py_round_0: "py_round 0 n = 0"
  by (simp add: py_round_def round_half_even_def)

lemma py_round_gap_450:
  assumes "450 \<le> b - a"
  shows "450 \<le> py_round b 2 - py_round a 2"
proof -
  from assms have "a + 450 \<le> b" by simp
  then have "py_round (a + 450) 2 \<le> py_round b 2" by (rule py_round_mono)
  then show ?thesis by (simp add: py_round_add_450)
qed



lemma make_stop_miles: "miles_from_start (make_stop sc) = py_round (snd sc) 2"
  by (simp add: make_stop_def Let_def)

lemma greedy_loop_choice:
  "greedy_loop sts (stops, cr, pc) = stops @ map make_stop (greedy_choice sts cr pc)"
  by (induction sts arbitrary: stops cr pc) (simp_all add: Let_def)

lemma greedy_fallback_choice:
  "greedy_fallback D sts = map make_stop (greedy_choice sts VEHICLE_RANGE_MILES 0)"
  by (simp add: greedy_fallback_def greedy_loop_choice)

lemma greedy_choice_subset: "set (greedy_choice sts cr pc) \<subseteq> set sts"
  by (induction sts arbitrary: cr pc) auto

lemma greedy_choice_gaps:
  "successively (\<lambda>a b. 450 \<le> b - a) (pc # map snd (greedy_choice sts VEHICLE_RANGE_MILES pc))"
proof (induction sts arbitrary: pc)
  case Nil
  then show ?case by simp
next
  case (Cons sc sts)
  show ?case
  proof (cases "snd sc - pc \<ge> VEHICLE_RANGE_MILES - 50")
    case True
    then have "450 \<le> snd sc - pc" by (simp add: VEHICLE_RANGE_MILES_def)
    with True Cons.IH [of "snd sc"] show ?thesis by simp
  next
    case False
    with Cons.IH [of pc] show ?thesis by simp
  qed
qed

lemma greedy_choice_empty:
  assumes "\<forall>sc\<in>set sts. snd sc - pc < cr - 50"
  shows "greedy_choice sts cr pc = []"
  using assms by (induction sts) auto

lemma successively_round:
  assumes "successively (\<lambda>a b. 450 \<le> b - a) xs"
  shows "successively (\<lambda>a b. 450 \<le> b - a) (map (\<lambda>x. py_round x 2) xs)"
  unfolding successively_map
  by (rule successively_mono [OF assms]) (rule py_round_gap_450)

lemma is_chain_bounds: "is_chain parent k ns \<Longrightarrow> \<forall>v\<in>set ns. 0 < v \<and> v < k"
  by (induction ns arbitrary: k) fastforce+

subsection \<open>The stations behind the returned stops\<close>



lemma sparse_route_example:
  "(\<exists>r. optimize_route (Some (example_route 1200)) [(example_station ''A'' 3, 100)]
           ''Boston, MA'' ''Chicago, IL'' = Some (Inr r)
         \<and> fuel_stops r = [] \<and> total_fuel_cost r = 0)
   \<and> \<not> range_respected 1200 [(example_station ''A'' 3, 100)] []
   \<and> \<not> range_respected 1200 [(example_station ''A'' 3, 100)] [0]"
proof -
  have ev: "map_option (map_sum id (\<lambda>r. (fuel_stops r, total_fuel_cost r)))
          (optimize_route (Some (example_route 1200)) [(example_station ''A'' 3, 100)]
             ''Boston, MA'' ''Chicago, IL'') = Some (Inr ([], 0))"
    by code_simp
  have "\<exists>r. optimize_route (Some (example_route 1200)) [(example_station ''A'' 3, 100)]
           ''Boston, MA'' ''Chicago, IL'' = Some (Inr r)
         \<and> fuel_stops r = [] \<and> total_fuel_cost r = 0"
  proof -
    from ev obtain x
      where x: "optimize_route (Some (example_route 1200)) [(example_station ''A'' 3, 100)]
                  ''Boston, MA'' ''Chicago, IL'' = Some x"
        and m: "map_sum id (\<lambda>r. (fuel_stops r, total_fuel_cost r)) x = Inr ([], 0)"
      by auto
    from m show ?thesis
      unfolding x by (cases x) auto
  qed
  moreover have "\<not> range_respected 1200 [(example_station ''A'' 3, 100)] []"
    "\<not> range_respected 1200 [(example_station ''A'' 3, 100)] [0]"
    by (simp_all add: range_respected_def positions_def VEHICLE_RANGE_MILES_def)
  ultimately show ?thesis by blast
qed

subsection \<open>The chain of parents behind the path\<close>

lemma reachable_iff:
  "reachable D sts j k \<longleftrightarrow> cur_chainage D sts k - prev_chainage sts j \<le> VEHICLE_RANGE_MILES"
  by (simp add: reachable_def not_less)

lemma cur_chainage_station: "k \<le> length sts \<Longrightarrow> cur_chainage D sts k = snd (sts ! (k - 1))"
  by (simp add: cur_chainage_def END_IDX_def)

lemma cur_chainage_end: "cur_chainage D sts (END_IDX sts) = D"
  by (simp add: cur_chainage_def)

lemma prev_chainage_station: "0 < j \<Longrightarrow> prev_chainage sts j = snd (sts ! (j - 1))"
  by (simp add: prev_chainage_def START_IDX_def)

lemma prev_chainage_start: "prev_chainage sts 0 = 0"
  by (simp add: prev_chainage_def START_IDX_def)

lemma refuel_cost_station:
  "k \<le> length sts \<Longrightarrow>
     refuel_cost sts k = (VEHICLE_RANGE_MILES / FUEL_EFFICIENCY_MPG) * retail_price (fst (sts ! (k - 1)))"
  by (simp add: refuel_cost_def END_IDX_def)

lemma refuel_cost_end: "refuel_cost sts (END_IDX sts) = 0"
  by (simp add: refuel_cost_def)

lemma chain_gaps:
  assumes "is_chain (parent_of D sts) k ns" "1 \<le> k" "k \<le> length sts + 1"
  shows "successively (\<lambda>a b. b - a \<le> VEHICLE_RANGE_MILES)
           (0 # map (\<lambda>i. snd (sts ! i)) (rev (map (\<lambda>v. v - 1) ns)) @ [cur_chainage D sts k])"
  using assms
proof (induction ns arbitrary: k)
  case Nil
  then have "parent_of D sts ! k = int 0" by simp
  from table_parent [OF Nil.prems(2,3) this] have "reachable D sts 0 k" by blast
  then show ?case
    by (simp add: reachable_iff prev_chainage_start)
next
  case (Cons p ps)
  then have par: "parent_of D sts ! k = int p" and p: "0 < p" "p < k"
    and ch: "is_chain (parent_of D sts) p ps"
    by simp_all
  from p Cons.prems(3) have pn: "1 \<le> p" "p \<le> length sts + 1" "p \<le> length sts"
    by simp_all
  from table_parent [OF Cons.prems(2,3) par] have "reachable D sts p k" by blast
  then have leg: "cur_chainage D sts k - snd (sts ! (p - 1)) \<le> VEHICLE_RANGE_MILES"
    using p by (simp add: reachable_iff prev_chainage_station)
  from Cons.IH [OF ch pn(1,2)]
  have "successively (\<lambda>a b. b - a \<le> VEHICLE_RANGE_MILES)
          (0 # map (\<lambda>i. snd (sts ! i)) (rev (map (\<lambda>v. v - 1) ps)) @ [snd (sts ! (p - 1))])"
    by (simp add: cur_chainage_station [OF pn(3)])
  with leg have "successively (\<lambda>a b. b - a \<le> VEHICLE_RANGE_MILES)
          ((0 # map (\<lambda>i. snd (sts ! i)) (rev (map (\<lambda>v. v - 1) ps)) @ [snd (sts ! (p - 1))])
             @ [cur_chainage D sts k])"
    by (subst successively_append_iff) simp
  then show ?case by simp
qed

lemma chain_cost:
  assumes "is_chain (parent_of D sts) k ns" "1 \<le> k" "k \<le> length sts + 1"
  shows "dp_of D sts ! k = Finite (refuel_cost sts k + sum_list (map (refuel_cost sts) ns))"
  using assms
proof (induction ns arbitrary: k)
  case Nil
  then have "parent_of D sts ! k = int 0" by simp
  from table_parent [OF Nil.prems(2,3) this] show ?case
    by (auto simp: table_start)
next
  case (Cons p ps)
  then have par: "parent_of D sts ! k = int p" and p: "0 < p" "p < k"
    and ch: "is_chain (parent_of D sts) p ps"
    by simp_all
  from p Cons.prems(3) have pn: "1 \<le> p" "p \<le> length sts + 1"
    by simp_all
  from table_parent [OF Cons.prems(2,3) par] Cons.IH [OF ch pn] show ?case
    by auto
qed

lemma chain_plan_cost:
  assumes "is_chain (parent_of D sts) k ns" "k \<le> length sts + 1"
  shows "sum_list (map (refuel_cost sts) ns) = plan_cost sts (rev (map (\<lambda>v. v - 1) ns))"
proof -
  from is_chain_bounds [OF assms(1)] assms(2) have "\<forall>v\<in>set ns. v \<le> length sts"
    by auto
  then have "map (refuel_cost sts) ns
      = map (\<lambda>v. (VEHICLE_RANGE_MILES / FUEL_EFFICIENCY_MPG) * retail_price (fst (sts ! (v - 1)))) ns"
    by (simp add: refuel_cost_station)
  then have "sum_list (map (refuel_cost sts) ns)
      = sum_list (rev (map (\<lambda>v. (VEHICLE_RANGE_MILES / FUEL_EFFICIENCY_MPG)
                              * retail_price (fst (sts ! (v - 1)))) ns))"
    by (simp only: sum_list_rev)
  also have "\<dots> = plan_cost sts (rev (map (\<lambda>v. v - 1) ns))"
    by (simp add: plan_cost_def rev_map comp_def)
  finally show ?thesis .
qed

lemma chain_increasing:
  assumes "is_chain parent k ns"
  shows "sorted_wrt (<) (rev (map (\<lambda>v. v - 1) ns))"
proof -
  have "sorted_wrt (>) ns"
    using assms
  proof (induction ns arbitrary: k)
    case Nil
    then show ?case by simp
  next
    case (Cons p ps)
    then have "is_chain parent p ps" by simp
    from is_chain_bounds [OF this] Cons.IH [OF this] show ?case by auto
  qed
  moreover from is_chain_bounds [OF assms] have "\<forall>v\<in>set ns. 0 < v" by blast
  ultimately have "sorted_wrt (\<lambda>a b. b - 1 < a - 1) ns"
    by (auto intro!: sorted_wrt_mono_rel [where P = "(>)"] )
  then show ?thesis
    by (simp add: sorted_wrt_rev sorted_wrt_map)
qed

subsection \<open>The path the backtrack returns\<close>




lemma dp_path:
  assumes "dp_of D sts ! END_IDX sts \<noteq> Infinite"
  shows "\<exists>ns. is_chain (parent_of D sts) (END_IDX sts) ns
           \<and> path_indices D sts = Some (rev (map (\<lambda>v. v - 1) ns))
           \<and> set (rev (map (\<lambda>v. v - 1) ns)) \<subseteq> {..<length sts}
           \<and> sorted_wrt (<) (rev (map (\<lambda>v. v - 1) ns))
           \<and> range_respected D sts (rev (map (\<lambda>v. v - 1) ns))
           \<and> dp_of D sts ! END_IDX sts = Finite (plan_cost sts (rev (map (\<lambda>v. v - 1) ns)))"
proof -
  from path_indices_chain [OF assms] obtain ns
    where ch: "is_chain (parent_of D sts) (END_IDX sts) ns"
      and p: "path_indices D sts = Some (rev (map (\<lambda>v. v - 1) ns))"
    by blast
  have e: "1 \<le> END_IDX sts" "END_IDX sts \<le> length sts + 1"
    by (simp_all add: END_IDX_def)
  from is_chain_bounds [OF ch] have "set (rev (map (\<lambda>v. v - 1) ns)) \<subseteq> {..<length sts}"
    by (auto simp: END_IDX_def)
  moreover note chain_increasing [OF ch]
  moreover from chain_gaps [OF ch e] have "range_respected D sts (rev (map (\<lambda>v. v - 1) ns))"
    by (simp add: range_respected_def positions_def cur_chainage_end)
  moreover from chain_cost [OF ch e] chain_plan_cost [OF ch e(2)]
  have "dp_of D sts ! END_IDX sts = Finite (plan_cost sts (rev (map (\<lambda>v. v - 1) ns)))"
    by (simp add: refuel_cost_end)
  ultimately show ?thesis using ch p by blast
qed

subsection \<open>Non-negative prices\<close>

lemma refuel_cost_nonneg:
  assumes "\<forall>sc\<in>set sts. 0 \<le> retail_price (fst sc)" "0 < v" "v \<le> length sts + 1"
  shows "0 \<le> refuel_cost sts v"
proof (cases "v = END_IDX sts")
  case True
  then show ?thesis by (simp add: refuel_cost_end)
next
  case False
  with assms(2,3) have "v - 1 < length sts" "v \<le> length sts"
    by (simp_all add: END_IDX_def)
  then have "0 \<le> retail_price (fst (sts ! (v - 1)))"
    using assms(1) by simp
  then show ?thesis
    using \<open>v \<le> length sts\<close>
    by (simp add: refuel_cost_station VEHICLE_RANGE_MILES_def FUEL_EFFICIENCY_MPG_def)
qed

lemma dp_nonneg:
  assumes prices: "\<forall>sc\<in>set sts. 0 \<le> retail_price (fst sc)"
    and "k \<le> length sts + 1" "dp_of D sts ! k = Finite c"
  shows "0 \<le> c"
proof (cases "k = 0")
  case True
  with assms(3) show ?thesis by (simp add: table_start)
next
  case False
  then have k: "1 \<le> k" by simp
  from assms(3) have "dp_of D sts ! k \<noteq> Infinite" by simp
  from backtrack_chain [OF k assms(2) this] obtain ns
    where ch: "is_chain (parent_of D sts) k ns"
    by blast
  from is_chain_bounds [OF ch] assms(2) have "\<forall>v\<in>set ns. 0 < v \<and> v \<le> length sts + 1"
    by auto
  then have "\<forall>x\<in>set (map (refuel_cost sts) ns). 0 \<le> x"
    using refuel_cost_nonneg [OF prices] by auto
  then have "0 \<le> sum_list (map (refuel_cost sts) ns)"
    by (intro sum_list_nonneg) blast
  moreover have "0 \<le> refuel_cost sts k"
    using refuel_cost_nonneg [OF prices] k assms(2) by simp
  ultimately show ?thesis
    using chain_cost [OF ch k assms(2)] assms(3) by simp
qed

lemma parent_strict:
  assumes prices: "\<forall>sc\<in>set sts. 0 \<le> retail_price (fst sc)"
    and par: "parent_of D sts ! p = int q" and q: "0 < q" and p: "p \<le> length sts"
  shows "snd (sts ! (q - 1)) < snd (sts ! (p - 1))"
proof (rule ccontr)
  assume "\<not> snd (sts ! (q - 1)) < snd (sts ! (p - 1))"
  then have le: "snd (sts ! (p - 1)) \<le> snd (sts ! (q - 1))" by simp
  have "0 \<le> int q" by simp
  have p1: "1 \<le> p" "p \<le> length sts + 1"
  proof -
    show "p \<le> length sts + 1" using p by simp
    show "1 \<le> p"
    proof (rule ccontr)
      assume "\<not> 1 \<le> p"
      then have "p = 0" by simp
      with par table_start(2) [of D sts] show False by simp
    qed
  qed
  from table_parent [OF p1 par] obtain a where qp: "q < p"
    and a: "dp_of D sts ! q = Finite a" and dp_p: "dp_of D sts ! p = Finite (a + refuel_cost sts p)"
    by blast
  have q1: "1 \<le> q" "q \<le> length sts + 1" "q \<le> length sts"
    using q qp p by simp_all
  from a have "dp_of D sts ! q \<noteq> Infinite" by simp
  from table_finite [OF q1(1,2) this] obtain j where pj: "parent_of D sts ! q = int j"
    by blast
  from table_parent [OF q1(1,2) pj] obtain a' where jq: "j < q" and rj: "reachable D sts j q"
    and a': "dp_of D sts ! j = Finite a'" and dp_q: "dp_of D sts ! q = Finite (a' + refuel_cost sts q)"
    by blast
  from rj le have "reachable D sts j p"
    by (simp add: reachable_iff cur_chainage_station [OF q1(3)] cur_chainage_station [OF p])
  from table_first [OF p1 par jq this]
  have "a + refuel_cost sts p < a' + refuel_cost sts p"
    by (simp add: dp_p a')
  moreover from a dp_q have "a = a' + refuel_cost sts q" by simp
  moreover have "0 \<le> refuel_cost sts q"
    using refuel_cost_nonneg [OF prices q q1(2)] .
  ultimately show False by simp
qed

lemma chain_strict:
  assumes prices: "\<forall>sc\<in>set sts. 0 \<le> retail_price (fst sc)"
    and "is_chain (parent_of D sts) k ns" "k \<le> length sts + 1"
  shows "sorted_wrt (<) (map (\<lambda>i. snd (sts ! i)) (rev (map (\<lambda>v. v - 1) ns)))"
proof -
  let ?g = "\<lambda>v. snd (sts ! (v - 1))"
  have "successively (\<lambda>a b. ?g b < ?g a) ns"
    using assms(2,3)
  proof (induction ns arbitrary: k)
    case Nil
    then show ?case by simp
  next
    case (Cons p ps)
    then have pk: "p < k" and ch: "is_chain (parent_of D sts) p ps"
      by simp_all
    from pk Cons.prems(2) have pn: "p \<le> length sts" "p \<le> length sts + 1"
      by simp_all
    show ?case
    proof (cases ps)
      case Nil
      then show ?thesis by simp
    next
      case (Cons q rest)
      with ch have "parent_of D sts ! p = int q" "0 < q"
        by simp_all
      from parent_strict [OF prices this pn(1)] Cons.IH [OF ch pn(2)] Cons
      show ?thesis by simp
    qed
  qed
  moreover have "transp (\<lambda>a b. ?g b < ?g a)"
    by (rule transpI) simp
  ultimately have "sorted_wrt (\<lambda>a b. ?g b < ?g a) ns"
    by (simp add: successively_conv_sorted_wrt)
  then have "sorted_wrt (<) (map ?g (rev ns))"
    by (simp add: sorted_wrt_map sorted_wrt_rev)
  then show ?thesis
    by (simp add: rev_map comp_def)
qed

lemma short_route_path:
  assumes prices: "\<forall>sc\<in>set sts. 0 \<le> retail_price (fst sc)"
    and short: "D \<le> VEHICLE_RANGE_MILES"
  shows "dp_of D sts ! END_IDX sts \<noteq> Infinite \<and> path_indices D sts = Some []"
proof -
  have e: "1 \<le> END_IDX sts" "END_IDX sts \<le> length sts + 1" "0 < END_IDX sts"
    by (simp_all add: END_IDX_def)
  from short have r0: "reachable D sts 0 (END_IDX sts)"
    by (simp add: reachable_iff cur_chainage_end prev_chainage_start)
  from table_min [OF e(1,2) e(3) r0 table_start(1)] obtain c
    where c: "dp_of D sts ! END_IDX sts = Finite c" and "c \<le> 0 + refuel_cost sts (END_IDX sts)"
    by blast
  then have fin: "dp_of D sts ! END_IDX sts \<noteq> Infinite" by simp
  from dp_nonneg [OF prices e(2) c] have c0: "0 \<le> c" .
  from path_indices_chain [OF fin] obtain ns
    where ch: "is_chain (parent_of D sts) (END_IDX sts) ns"
      and p: "path_indices D sts = Some (rev (map (\<lambda>v. v - 1) ns))"
    by blast
  have "ns = []"
  proof (cases ns)
    case Nil
    then show ?thesis .
  next
    case (Cons j rest)
    with ch have "parent_of D sts ! END_IDX sts = int j" "0 < j"
      by simp_all
    from table_first [OF e(1,2) this r0] have "c < 0"
      by (simp add: c table_start refuel_cost_end)
    with c0 show ?thesis by simp
  qed
  with p fin show ?thesis by simp
qed

subsection \<open>Order of the returned stops\<close>

lemma sorted_round:
  assumes "sorted xs"
  shows "sorted (map (\<lambda>x. py_round x 2) xs)"
  unfolding sorted_wrt_map
  by (rule sorted_wrt_mono_rel [OF _ assms]) (rule py_round_mono)

lemma greedy_choice_strict:
  "sorted_wrt (<) (map snd (greedy_choice sts VEHICLE_RANGE_MILES pc))"
proof -
  have "successively (\<lambda>a b. 450 \<le> b - a) (map snd (greedy_choice sts VEHICLE_RANGE_MILES pc))"
    using greedy_choice_gaps [of pc sts] by (auto simp: successively_Cons)
  then have "successively (<) (map snd (greedy_choice sts VEHICLE_RANGE_MILES pc))"
    by (rule successively_mono) simp
  moreover have "transp ((<) :: rat \<Rightarrow> rat \<Rightarrow> bool)"
    by (rule transpI) simp
  ultimately show ?thesis
    by (simp add: successively_conv_sorted_wrt)
qed

lemma find_optimal_stops_dp_strict:
  assumes prices: "\<forall>sc\<in>set sts. 0 \<le> retail_price (fst sc)"
  shows "\<exists>chosen. find_optimal_stops_dp D sts = Some (map make_stop chosen)
           \<and> set chosen \<subseteq> set sts \<and> sorted_wrt (<) (map snd chosen)"
proof (cases "sts = []")
  case True
  then have "find_optimal_stops_dp D sts = Some (map make_stop [])"
    by (simp add: find_optimal_stops_dp_def)
  then show ?thesis by (intro exI [of _ "[]"]) simp
next
  case False
  show ?thesis
  proof (cases "dp_of D sts ! END_IDX sts = Infinite")
    case True
    with False have "find_optimal_stops_dp D sts
        = Some (map make_stop (greedy_choice sts VEHICLE_RANGE_MILES 0))"
      by (simp add: find_optimal_stops_dp_def greedy_fallback_choice)
    with greedy_choice_subset greedy_choice_strict show ?thesis by blast
  next
    case fin: False
    from dp_path [OF fin] obtain ns
      where ch: "is_chain (parent_of D sts) (END_IDX sts) ns"
        and p: "path_indices D sts = Some (rev (map (\<lambda>v. v - 1) ns))"
        and r: "set (rev (map (\<lambda>v. v - 1) ns)) \<subseteq> {..<length sts}"
      by blast
    let ?path = "rev (map (\<lambda>v. v - 1) ns)"
    from False fin p
    have "find_optimal_stops_dp D sts = Some (map make_stop (map ((!) sts) ?path))"
      by (simp add: find_optimal_stops_dp_def)
    moreover from r have "set (map ((!) sts) ?path) \<subseteq> set sts"
      by auto
    moreover have "sorted_wrt (<) (map snd (map ((!) sts) ?path))"
      using chain_strict [OF prices ch] by (simp add: END_IDX_def comp_def)
    ultimately show ?thesis by blast
  qed
qed

subsection \<open>Lower bound of the table for every plan\<close>






subsection \<open>Plans in any order\<close>



section \<open>The properties of the specification\<close>

text \<open>
  C3. Route of 1200 miles, stations at chainage 100 (price 3.00), 450 (price 2.80) and 900
  (price 2.90): the planner returns exactly the stops at 450 (50 gallons, cost 140.00) and at
  900 (50 gallons, cost 145.00), in that order, and not the station at 100; the result has
  total fuel cost 285.00 and total gallons 120.00.
\<close>

theorem C3_scenario:
  "map_option (map (\<lambda>s. (name s, miles_from_start s, price_per_gallon s, gallons_needed s, cost s)))
     (find_optimal_stops_dp 1200
        [(example_station ''A'' 3, 100), (example_station ''B'' (28 / 10), 450),
         (example_station ''C'' (29 / 10), 900)])
     = Some [(''B'', 450, 28 / 10, 50, 140), (''C'', 900, 29 / 10, 50, 145)]
   \<and> map_option (map_sum id (\<lambda>r. (map name (fuel_stops r), total_fuel_cost r, total_gallons r)))
       (optimize_route (Some (example_route 1200))
          [(example_station ''A'' 3, 100), (example_station ''B'' (28 / 10), 450),
           (example_station ''C'' (29 / 10), 900)] ''Boston, MA'' ''Chicago, IL'')
     = Some (Inr ([''B'', ''C''], 285, 120))"
  by code_simp

text \<open>
  C4. Whenever the corridor filter yields at least one on-route station, \<open>optimize_route\<close>
  returns a result whose \<open>optimization_method\<close> is \<open>dynamic_programming\<close>; this includes the
  inputs on which the end node is unreachable and the greedy fallback produced the stops.
\<close>

theorem C4_method_label:
  assumes "on_route_stations \<noteq> []"
  shows "\<exists>r. optimize_route (Some rt) on_route_stations start_address end_address = Some (Inr r)
           \<and> optimization_method r = ''dynamic_programming''"
proof -
  obtain stops where "find_optimal_stops_dp (distance_miles rt) on_route_stations = Some stops"
    using find_optimal_stops_dp_total by blast
  with assms show ?thesis
    by (simp add: optimize_route_def Let_def)
qed

text \<open>
  An input where the fallback runs: one station at chainage 100 on a route of 1200 miles
  leaves the end node at infinite cost, and the label is unchanged.
\<close>

theorem C4_method_label_witness:
  "[(example_station ''A'' 3, 100)] \<noteq> []
   \<and> fst (dp_table 1200 [(example_station ''A'' 3, 100)]) ! END_IDX [(example_station ''A'' 3, 100)]
       = Infinite
   \<and> (\<exists>r. optimize_route (Some (example_route 1200)) [(example_station ''A'' 3, 100)]
             ''Boston, MA'' ''Chicago, IL'' = Some (Inr r)
          \<and> optimization_method r = ''dynamic_programming'')"
proof -
  have ne: "[(example_station ''A'' 3, 100 :: rat)] \<noteq> []"
    by simp
  have inf: "fst (dp_table 1200 [(example_station ''A'' 3, 100)])
               ! END_IDX [(example_station ''A'' 3, 100)] = Infinite"
    by code_simp
  show ?thesis
    using ne inf C4_method_label [OF ne, of "example_route 1200" "''Boston, MA''" "''Chicago, IL''"]
    by simp
qed




text \<open>
  C10. In the list the greedy fallback returns, each stop lies at least range - buffer = 450
  miles after the previous one (after 0 for the first), for the chainages of the chosen
  stations and for the rounded \<open>miles_from_start\<close> of the stops alike; when no station lies at
  450 miles or more, the fallback returns no stop; and a route that no plan can cover within
  range (1200 miles, one station at chainage 100) comes out of \<open>optimize_route\<close> as a result
  with no stops and total fuel cost 0, not as an error.
\<close>

theorem C10_greedy_gaps:
  "(\<exists>chosen. set chosen \<subseteq> set sts \<and> greedy_fallback D sts = map make_stop chosen
       \<and> successively (\<lambda>a b. VEHICLE_RANGE_MILES - 50 \<le> b - a) (0 # map snd chosen))
   \<and> successively (\<lambda>a b. 450 \<le> b - a) (0 # map miles_from_start (greedy_fallback D sts))
   \<and> ((\<forall>sc\<in>set sts. snd sc < 450) \<longrightarrow> greedy_fallback D sts = [])
   \<and> (\<exists>r. optimize_route (Some (example_route 1200)) [(example_station ''A'' 3, 100)]
             ''Boston, MA'' ''Chicago, IL'' = Some (Inr r)
          \<and> fuel_stops r = [] \<and> total_fuel_cost r = 0)
   \<and> \<not> range_respected 1200 [(example_station ''A'' 3, 100)] []
   \<and> \<not> range_respected 1200 [(example_station ''A'' 3, 100)] [0]"
proof -
  let ?chosen = "greedy_choice sts VEHICLE_RANGE_MILES 0"
  have gaps: "successively (\<lambda>a b. 450 \<le> b - a) (0 # map snd ?chosen)"
    by (rule greedy_choice_gaps)
  then have "successively (\<lambda>a b. VEHICLE_RANGE_MILES - 50 \<le> b - a) (0 # map snd ?chosen)"
    by (simp add: VEHICLE_RANGE_MILES_def)
  then have first: "\<exists>chosen. set chosen \<subseteq> set sts \<and> greedy_fallback D sts = map make_stop chosen
       \<and> successively (\<lambda>a b. VEHICLE_RANGE_MILES - 50 \<le> b - a) (0 # map snd chosen)"
    using greedy_choice_subset greedy_fallback_choice by blast
  have "map (\<lambda>x. py_round x 2) (0 # map snd ?chosen)
          = 0 # map miles_from_start (greedy_fallback D sts)"
    by (simp add: greedy_fallback_choice py_round_0 make_stop_miles comp_def)
  with successively_round [OF gaps]
  have second: "successively (\<lambda>a b. 450 \<le> b - a) (0 # map miles_from_start (greedy_fallback D sts))"
    by simp
  have third: "greedy_fallback D sts = []" if "\<forall>sc\<in>set sts. snd sc < 450"
  proof -
    from that have "\<forall>sc\<in>set sts. snd sc - 0 < VEHICLE_RANGE_MILES - 50"
      by (simp add: VEHICLE_RANGE_MILES_def)
    then show ?thesis
      by (simp only: greedy_fallback_choice greedy_choice_empty list.map)
  qed
  from first second third sparse_route_example show ?thesis by blast
qed

text \<open>
  The hypothesis of the third part holds for one station at chainage 100.
\<close>

theorem C10_greedy_gaps_witness:
  "list_all (\<lambda>sc. snd sc < 450) [(example_station ''A'' 3, 100 :: rat)]
   \<and> greedy_fallback 1200 [(example_station ''A'' 3, 100)] = []"
  using C10_greedy_gaps [of "[(example_station ''A'' 3, 100)]" 1200] by simp



text \<open>
  C5, as amended. For every station set whose unit prices are all non-negative, a route no
  longer than the range of 500 miles gets a result with no stops and total fuel cost 0; for
  a route of 300 miles the total gallons are 30.00. (The start reaches the end at cost 0, it
  is tried first, and only a strictly cheaper predecessor replaces it.)
\<close>

theorem C5_short_route:
  assumes "\<forall>sc\<in>set on_route_stations. 0 \<le> retail_price (fst sc)"
    and "distance_miles rt \<le> VEHICLE_RANGE_MILES"
  shows "\<exists>r. optimize_route (Some rt) on_route_stations start_address end_address = Some (Inr r)
           \<and> fuel_stops r = [] \<and> total_fuel_cost r = 0
           \<and> (distance_miles rt = 300 \<longrightarrow> total_gallons r = 30)"
proof (cases "on_route_stations = []")
  case True
  have "py_round (300 / FUEL_EFFICIENCY_MPG) 2 = 30"
    by (simp add: FUEL_EFFICIENCY_MPG_def py_round_def round_half_even_def)
  with True show ?thesis
    by (simp add: optimize_route_def create_empty_result_def)
next
  case False
  from short_route_path [OF assms]
  have "find_optimal_stops_dp (distance_miles rt) on_route_stations = Some []"
    using False by (simp add: find_optimal_stops_dp_def)
  moreover have "py_round (300 / FUEL_EFFICIENCY_MPG) 2 = 30"
    by (simp add: FUEL_EFFICIENCY_MPG_def py_round_def round_half_even_def)
  ultimately show ?thesis
    using False by (simp add: optimize_route_def py_round_0)
qed

text \<open>
  The hypotheses hold for a route of 300 miles with one station priced 3.00.
\<close>

theorem C5_short_route_witness:
  "list_all (\<lambda>sc. 0 \<le> retail_price (fst sc)) [(example_station ''A'' 3, 100 :: rat)]
   \<and> distance_miles (example_route 300) \<le> VEHICLE_RANGE_MILES
   \<and> (\<exists>r. optimize_route (Some (example_route 300)) [(example_station ''A'' 3, 100)]
             ''Boston, MA'' ''Chicago, IL'' = Some (Inr r)
          \<and> fuel_stops r = [] \<and> total_fuel_cost r = 0 \<and> total_gallons r = 30)"
proof -
  have h1: "\<forall>sc\<in>set [(example_station ''A'' 3, 100 :: rat)]. 0 \<le> retail_price (fst sc)"
    by (simp add: example_station_def)
  have h2: "distance_miles (example_route 300) \<le> VEHICLE_RANGE_MILES"
    by (simp add: example_route_def VEHICLE_RANGE_MILES_def)
  have d: "distance_miles (example_route 300) = 300"
    by (simp add: example_route_def)
  from C5_short_route [OF h1 h2, of "''Boston, MA''" "''Chicago, IL''"] d h1 h2
  show ?thesis by (auto simp: list_all_iff)
qed

text \<open>
  C5, as stated for every station set, fails where a price is negative: on a route of 300
  miles with one station at chainage 100 priced -1.00, stopping there costs -50, which is
  strictly less than 0, so the plan has one stop and total fuel cost -50.
\<close>

theorem C5_counterexample:
  "distance_miles (example_route 300) \<le> VEHICLE_RANGE_MILES
   \<and> map_option (map_sum id fuel_stops)
       (optimize_route (Some (example_route 300)) [(example_station ''A'' (- 1), 100)]
          ''Boston, MA'' ''Chicago, IL'')
     = Some (Inr [make_stop (example_station ''A'' (- 1), 100)])
   \<and> map_option (map_sum id total_fuel_cost)
       (optimize_route (Some (example_route 300)) [(example_station ''A'' (- 1), 100)]
          ''Boston, MA'' ''Chicago, IL'')
     = Some (Inr (- 50))"
  by code_simp

text \<open>
  C9, as amended. With strictly positive unit prices, the stops that
  \<open>_find_optimal_stops_dp\<close> returns are those of stations whose chainages are strictly
  increasing, so no two stops are at the same chainage; the \<open>miles_from_start\<close> they report,
  which are these chainages rounded to 2 decimals, are in ascending order, not necessarily
  strictly. Sorted input is not needed for this.
\<close>

theorem C9_increasing_chainage:
  assumes "\<forall>sc\<in>set sts. 0 < retail_price (fst sc)"
  shows "\<exists>chosen. find_optimal_stops_dp D sts = Some (map make_stop chosen)
           \<and> set chosen \<subseteq> set sts
           \<and> sorted_wrt (<) (map snd chosen)
           \<and> sorted (map miles_from_start (map make_stop chosen))"
proof -
  from assms have "\<forall>sc\<in>set sts. 0 \<le> retail_price (fst sc)"
    by (auto intro: less_imp_le)
  from find_optimal_stops_dp_strict [OF this] obtain chosen
    where f: "find_optimal_stops_dp D sts = Some (map make_stop chosen)"
      and s: "set chosen \<subseteq> set sts" and lt: "sorted_wrt (<) (map snd chosen)"
    by blast
  from lt have "sorted (map snd chosen)"
    by (rule sorted_wrt_mono_rel [rotated]) simp
  then have "sorted (map (\<lambda>x. py_round x 2) (map snd chosen))"
    by (rule sorted_round)
  then have "sorted (map miles_from_start (map make_stop chosen))"
    by (simp add: make_stop_miles comp_def)
  with f s lt show ?thesis by blast
qed

text \<open>
  The hypothesis holds for the stations at 100, 450 and 900 priced 3.00, 2.80 and 2.90.
\<close>

theorem C9_increasing_chainage_witness:
  "list_all (\<lambda>sc. 0 < retail_price (fst sc))
     [(example_station ''A'' 3, 100 :: rat), (example_station ''B'' (28 / 10), 450),
      (example_station ''C'' (29 / 10), 900)]
   \<and> (\<exists>chosen. find_optimal_stops_dp 1200
          [(example_station ''A'' 3, 100), (example_station ''B'' (28 / 10), 450),
           (example_station ''C'' (29 / 10), 900)] = Some (map make_stop chosen)
        \<and> sorted_wrt (<) (map snd chosen)
        \<and> sorted (map miles_from_start (map make_stop chosen)))"
proof -
  have h: "\<forall>sc\<in>set [(example_station ''A'' 3, 100 :: rat), (example_station ''B'' (28 / 10), 450),
      (example_station ''C'' (29 / 10), 900)]. 0 < retail_price (fst sc)"
    by (simp add: example_station_def)
  from C9_increasing_chainage [OF h, of 1200] h show ?thesis
    by (auto simp: list_all_iff)
qed

text \<open>
  C9, as stated for \<open>miles_from_start\<close>, fails where rounding merges two chainages: on a route
  of 1000 miles with stations at 499.999 and 500.001 (sorted, both priced 3.00) the end is
  only reachable through both, and both stops report \<open>miles_from_start\<close> 500.00.
\<close>

theorem C9_counterexample:
  "sorted (map snd [(example_station ''A'' 3, 499999 / 1000 :: rat),
                    (example_station ''B'' 3, 500001 / 1000)])
   \<and> 0 < retail_price (example_station ''A'' 3) \<and> 0 < retail_price (example_station ''B'' 3)
   \<and> fst (dp_table 1000 [(example_station ''A'' 3, 499999 / 1000),
                          (example_station ''B'' 3, 500001 / 1000)])
       ! END_IDX [(example_station ''A'' 3, 499999 / 1000), (example_station ''B'' 3, 500001 / 1000)]
       \<noteq> Infinite
   \<and> map_option (map miles_from_start)
       (find_optimal_stops_dp 1000 [(example_station ''A'' 3, 499999 / 1000),
                                    (example_station ''B'' 3, 500001 / 1000)])
     = Some [500, 500]"
  by code_simp



end
